theory Spec2Isabelle
  imports
    Main
    "HOL-Library.Sublist"
    "HOL-Library.AList"
    "HOL-Library.Monad_Syntax"
    "HOL-Library.Multiset"
begin

section \<open>The file renamer of scripts/file\_processor.py\<close>

text \<open>
  The program scans the folders of \<^verbatim>\<open>TARGET_FOLDERS\<close>, and renames every Markdown file
  whose name does not have the shape \<^verbatim>\<open>YYYY-MM-DD-ID-title.md\<close> to a name of that shape.

  Modelling decisions.
  \<^item> A Python \<^verbatim>\<open>str\<close> is a \<^typ>\<open>string\<close>: a list of characters, each read as the code
    point with the same number (U+0000 to U+00FF). On this range \<^verbatim>\<open>\d\<close> matches exactly the
    ten ASCII digits and \<^verbatim>\<open>str.lower\<close> maps a character to one character.
  \<^item> Python integers are unbounded. The IDs are read from digit strings and incremented,
    so they are never negative: they are natural numbers.
  \<^item> The file system is a map from folder paths to nodes. A directory is the list of its
    entries, in the order \<^verbatim>\<open>os.listdir\<close> enumerates them, each with the object it names.
  \<^item> The calendar is an input: \<open>clock i\<close> is the date that call number \<open>i\<close> of
    \<^verbatim>\<open>datetime.date.today()\<close> returns.
  \<^item> An exception is an outcome \<open>Raised e\<close>, returned with the state of the world at the
    moment it is raised.
\<close>

subsection \<open>Characters\<close>

definition newline :: char where
  "newline = CHR 0x0A"

text \<open>\<^verbatim>\<open>\d\<close> of the module \<^verbatim>\<open>re\<close>.\<close>

definition isdigit :: "char \<Rightarrow> bool" where
  "isdigit c = (48 \<le> (of_char c :: nat) \<and> (of_char c :: nat) \<le> 57)"

text \<open>The characters that the class \<^verbatim>\<open>[^a-z0-9-]\<close> does not match.\<close>

definition keep_char :: "char \<Rightarrow> bool" where
  "keep_char c =
     ((97 \<le> (of_char c :: nat) \<and> (of_char c :: nat) \<le> 122)
      \<or> (48 \<le> (of_char c :: nat) \<and> (of_char c :: nat) \<le> 57)
      \<or> c = CHR ''-'')"

text \<open>
  \<^verbatim>\<open>str.lower\<close> on one character: the letters A to Z, and the capital letters U+00C0 to
  U+00DE (the multiplication sign U+00D7 is not a letter), move 32 places up.
\<close>

definition lower_char :: "char \<Rightarrow> char" where
  "lower_char c =
     (if (65 \<le> (of_char c :: nat) \<and> (of_char c :: nat) \<le> 90)
         \<or> (192 \<le> (of_char c :: nat) \<and> (of_char c :: nat) \<le> 222 \<and> (of_char c :: nat) \<noteq> 215)
      then char_of ((of_char c :: nat) + 32) else c)"

subsection \<open>String methods\<close>

definition lower :: "string \<Rightarrow> string" where
  "lower s = map lower_char s"

definition endswith :: "string \<Rightarrow> string \<Rightarrow> bool" where
  "endswith s suf = suffix suf s"

text \<open>
  \<^verbatim>\<open>s.replace(old, new)\<close>: every occurrence of \<open>old\<close>, found from the left and not
  overlapping an earlier one, is replaced. With an empty \<open>old\<close>, \<open>new\<close> is put before
  every character and at the end.
\<close>

function replace :: "string \<Rightarrow> string \<Rightarrow> string \<Rightarrow> string" where
  "replace old new s =
     (if old = [] then new @ concat (map (\<lambda>c. c # new) s)
      else if s = [] then []
      else if prefix old s then new @ replace old new (drop (length old) s)
      else hd s # replace old new (tl s))"
  by pat_completeness auto
termination
  by (relation "measure (\<lambda>(old, new, s). length s)") auto

declare replace.simps [simp del]

subsection \<open>Integers and their decimal form\<close>

definition digit_char :: "nat \<Rightarrow> char" where
  "digit_char k = char_of (48 + k)"

definition digit_val :: "char \<Rightarrow> nat" where
  "digit_val c = of_char c - 48"

text \<open>\<^verbatim>\<open>str(n)\<close> for \<open>n \<ge> 0\<close>: the decimal digits, the most significant first.\<close>

function str_nat :: "nat \<Rightarrow> string" where
  "str_nat n = (if n < 10 then [digit_char n] else str_nat (n div 10) @ [digit_char (n mod 10)])"
  by pat_completeness auto
termination
  by (relation "measure (\<lambda>n. n)") auto

declare str_nat.simps [simp del]

text \<open>
  \<^verbatim>\<open>int(s)\<close> on a string of decimal digits. (Python refuses a string of more than 4300
  digits; a file name is far shorter.)
\<close>

definition py_int :: "string \<Rightarrow> nat" where
  "py_int s = foldl (\<lambda>a c. 10 * a + digit_val c) 0 s"

text \<open>The format specifications \<^verbatim>\<open>03d\<close>, \<^verbatim>\<open>02d\<close>, ...: zeros on the left up to the width.\<close>

definition zfill :: "nat \<Rightarrow> string \<Rightarrow> string" where
  "zfill width s = replicate (width - length s) (CHR ''0'') @ s"

definition format_03d :: "nat \<Rightarrow> string" where
  "format_03d n = zfill 3 (str_nat n)"

subsection \<open>Dates\<close>

record date =
  year :: nat
  month :: nat
  day :: nat

text \<open>
  A value of \<^verbatim>\<open>datetime.date\<close> has a month from 1 to 12 and a day from 1 to 31. Its year
  is at most 9999; a year below 1000 prints with fewer than four digits on some
  platforms, and the statements below are about the years from 1000 on.
\<close>

definition valid_date :: "date \<Rightarrow> bool" where
  "valid_date d =
     (1000 \<le> year d \<and> year d \<le> 9999 \<and> 1 \<le> month d \<and> month d \<le> 12 \<and> 1 \<le> day d \<and> day d \<le> 31)"

text \<open>\<^verbatim>\<open>d.strftime('%Y-%m-%d')\<close>.\<close>

definition strftime :: "date \<Rightarrow> string" where
  "strftime d =
     zfill 4 (str_nat (year d)) @ ''-'' @ zfill 2 (str_nat (month d)) @ ''-''
       @ zfill 2 (str_nat (day d))"

subsection \<open>The pattern of a conforming file name\<close>

text \<open>
  Both functions of the program compile the same regular expression,
  \<^verbatim>\<open>^\d{4}-\d{2}-\d{2}-(\d+)-.*\.md$\<close>, and apply it with \<^verbatim>\<open>match\<close>, which anchors it at
  the start of the name. Each element of the expression is a function from the input
  that is left to the input left after it, or \<open>None\<close> when it does not match.
\<close>

text \<open>\<^verbatim>\<open>\d{n}\<close>: exactly \<open>n\<close> digits.\<close>

fun digits_n :: "nat \<Rightarrow> string \<Rightarrow> string option" where
  "digits_n 0 s = Some s"
| "digits_n (Suc n) [] = None"
| "digits_n (Suc n) (c # cs) = (if isdigit c then digits_n n cs else None)"

text \<open>A literal character.\<close>

fun lit :: "char \<Rightarrow> string \<Rightarrow> string option" where
  "lit a [] = None"
| "lit a (c # cs) = (if c = a then Some cs else None)"

text \<open>
  \<^verbatim>\<open>\.md$\<close> at the current position: \<^verbatim>\<open>$\<close> matches at the end of the string, and also
  just before a line break that is the last character of the string.
\<close>

definition md_dollar :: "string \<Rightarrow> bool" where
  "md_dollar s = (s = ''.md'' \<or> s = ''.md'' @ [newline])"

text \<open>
  \<^verbatim>\<open>.*\.md$\<close>: the dot matches every character but the line break, any number of times,
  and the rest of the expression must match what follows.
\<close>

fun tail_match :: "string \<Rightarrow> bool" where
  "tail_match [] = False"
| "tail_match (c # cs) = (md_dollar (c # cs) \<or> (c \<noteq> newline \<and> tail_match cs))"

text \<open>
  The whole expression. The group \<^verbatim>\<open>(\d+)\<close> is greedy and a hyphen must follow it, so
  it can only match the longest run of digits at its position. The result is the text of
  group 1, or \<open>None\<close> when \<^verbatim>\<open>match\<close> returns \<^verbatim>\<open>None\<close>.
\<close>

definition pattern_match :: "string \<Rightarrow> string option" where
  "pattern_match filename =
     do {
       s1 \<leftarrow> digits_n 4 filename;
       s2 \<leftarrow> lit (CHR ''-'') s1;
       s3 \<leftarrow> digits_n 2 s2;
       s4 \<leftarrow> lit (CHR ''-'') s3;
       s5 \<leftarrow> digits_n 2 s4;
       s6 \<leftarrow> lit (CHR ''-'') s5;
       s7 \<leftarrow> (if takeWhile isdigit s6 = [] then None else Some (dropWhile isdigit s6));
       s8 \<leftarrow> lit (CHR ''-'') s7;
       (if tail_match s8 then Some (takeWhile isdigit s6) else None)
     }"

text \<open>The ID embedded in a name: \<^verbatim>\<open>int(match.group(1))\<close>, when the name matches.\<close>

definition embedded_id :: "string \<Rightarrow> nat option" where
  "embedded_id filename = map_option py_int (pattern_match filename)"

subsection \<open>The world: file system, standard output, calendar\<close>

text \<open>
  A path of the file system names a regular file or a directory. An entry of a directory
  is a name and the object (file or subdirectory, here a number) that the name refers to.
  A directory may be read-only for the process: it can be listed, but no entry of it can
  be renamed.
\<close>

datatype node =
  RegularFile
| Directory "(string \<times> nat) list"
| ReadOnlyDirectory "(string \<times> nat) list"

text \<open>
  The exceptions that the model raises: a path or a name that does not exist, a listing
  of a path that is a regular file, and a rename in a read-only directory. Other failures
  of the operating system (input and output errors, the encoding of standard output) are
  outside the model.
\<close>

datatype error = FileNotFoundError | NotADirectoryError | PermissionError

datatype outcome = Returned | Raised error

text \<open>
  What a run did, in order: a call of \<^verbatim>\<open>process_folder\<close> on a folder, and a completed
  call of \<^verbatim>\<open>shutil.move\<close> (folder, old name, new name). The trace is not a variable of the
  program; it records its calls, so that statements can speak of them.
\<close>

datatype event = Scanned string | Renamed string string string

record world =
  fs :: "string \<Rightarrow> node option"
  stdout :: "string list"
  reads :: nat
  trace :: "event list"

definition print :: "string \<Rightarrow> world \<Rightarrow> world" where
  "print line w = w\<lparr>stdout := stdout w @ [line]\<rparr>"

definition os_path_exists :: "world \<Rightarrow> string \<Rightarrow> bool" where
  "os_path_exists w path = (fs w path \<noteq> None)"

definition os_listdir :: "world \<Rightarrow> string \<Rightarrow> error + string list" where
  "os_listdir w path =
     (case fs w path of
        None \<Rightarrow> Inl FileNotFoundError
      | Some RegularFile \<Rightarrow> Inl NotADirectoryError
      | Some (Directory entries) \<Rightarrow> Inr (map fst entries)
      | Some (ReadOnlyDirectory entries) \<Rightarrow> Inr (map fst entries))"

text \<open>
  \<^verbatim>\<open>shutil.move(os.path.join(folder, old), os.path.join(folder, new))\<close>: the object named
  \<open>old\<close> gets the name \<open>new\<close>; an entry that has this name already is replaced, as
  \<^verbatim>\<open>os.rename\<close> does on a POSIX system for a regular file. (Into an existing directory,
  \<^verbatim>\<open>shutil.move\<close> moves the file instead; it is proved below that in a run the new
  name is never the name of an entry, so neither case arises.) The
  two joined paths are given by their parts: a name of a listing has no separator. In a
  read-only directory \<^verbatim>\<open>os.rename\<close> is refused, and so is the copy that \<^verbatim>\<open>shutil.move\<close>
  then tries: the call raises \<^verbatim>\<open>PermissionError\<close>.
\<close>

definition shutil_move :: "string \<Rightarrow> string \<Rightarrow> string \<Rightarrow> world \<Rightarrow> error + world" where
  "shutil_move folder_path old new w =
     (case fs w folder_path of
        None \<Rightarrow> Inl FileNotFoundError
      | Some RegularFile \<Rightarrow> Inl NotADirectoryError
      | Some (Directory entries) \<Rightarrow>
          (case map_of entries old of
             None \<Rightarrow> Inl FileNotFoundError
           | Some obj \<Rightarrow>
               Inr (w\<lparr>fs := (fs w)(folder_path \<mapsto>
                             Directory (AList.update new obj (AList.delete old entries))),
                       trace := trace w @ [Renamed folder_path old new]\<rparr>))
      | Some (ReadOnlyDirectory entries) \<Rightarrow>
          (case map_of entries old of
             None \<Rightarrow> Inl FileNotFoundError
           | Some obj \<Rightarrow> Inl PermissionError))"

subsection \<open>get\_next\_id\<close>

text \<open>The loop of \<^verbatim>\<open>get_next_id\<close> over the listing, with the variable \<^verbatim>\<open>max_id\<close>.\<close>

fun scan_ids :: "string list \<Rightarrow> nat \<Rightarrow> nat" where
  "scan_ids [] max_id = max_id"
| "scan_ids (filename # rest) max_id =
     (case pattern_match filename of
        None \<Rightarrow> scan_ids rest max_id
      | Some group1 \<Rightarrow>
          (let current_id = py_int group1
           in if current_id > max_id then scan_ids rest current_id
              else scan_ids rest max_id))"

definition get_next_id :: "world \<Rightarrow> string \<Rightarrow> error + nat" where
  "get_next_id w destination_dir =
     (if \<not> os_path_exists w destination_dir then Inr 1
      else case os_listdir w destination_dir of
             Inl e \<Rightarrow> Inl e
           | Inr names \<Rightarrow> Inr (scan_ids names 0 + 1))"

subsection \<open>process\_folder\<close>

text \<open>The title: the two assignments to \<^verbatim>\<open>clean_title\<close>.\<close>

definition re_sub_strip :: "string \<Rightarrow> string" where
  "re_sub_strip s = filter keep_char s"

definition slug :: "string \<Rightarrow> string" where
  "slug s = re_sub_strip (replace '' '' ''-'' (lower s))"

definition clean_title :: "string \<Rightarrow> string" where
  "clean_title filename = slug (replace ''.md'' '''' filename)"

definition new_filename :: "date \<Rightarrow> nat \<Rightarrow> string \<Rightarrow> string" where
  "new_filename today next_id filename =
     strftime today @ ''-'' @ format_03d next_id @ ''-'' @ clean_title filename @ ''.md''"

definition rename_line :: "string \<Rightarrow> string \<Rightarrow> string" where
  "rename_line filename new = ''Renaming '' @ filename @ '' -> '' @ new"

definition scanning_line :: "string \<Rightarrow> string" where
  "scanning_line folder_path = ''Scanning '' @ folder_path @ ''...''"

text \<open>
  The loop over the listing, which was read before the first rename. The date is read
  again for every file that is renamed.
\<close>

fun rename_loop :: "(nat \<Rightarrow> date) \<Rightarrow> string \<Rightarrow> string list \<Rightarrow> nat \<Rightarrow> world \<Rightarrow> outcome \<times> world" where
  "rename_loop clock folder_path [] next_id w = (Returned, w)"
| "rename_loop clock folder_path (filename # rest) next_id w =
     (if \<not> endswith filename ''.md'' then rename_loop clock folder_path rest next_id w
      else if pattern_match filename \<noteq> None then rename_loop clock folder_path rest next_id w
      else
        (let today = clock (reads w);
             w1 = w\<lparr>reads := Suc (reads w)\<rparr>;
             new = new_filename today next_id filename;
             w2 = print (rename_line filename new) w1
         in case shutil_move folder_path filename new w2 of
              Inl e \<Rightarrow> (Raised e, w2)
            | Inr w3 \<Rightarrow> rename_loop clock folder_path rest (next_id + 1) w3))"

definition process_folder :: "(nat \<Rightarrow> date) \<Rightarrow> string \<Rightarrow> world \<Rightarrow> outcome \<times> world" where
  "process_folder clock folder_path w0 =
     (let w = print (scanning_line folder_path) (w0\<lparr>trace := trace w0 @ [Scanned folder_path]\<rparr>)
      in if \<not> os_path_exists w folder_path then (Returned, w)
         else case get_next_id w folder_path of
                Inl e \<Rightarrow> (Raised e, w)
              | Inr next_id \<Rightarrow>
                  (case os_listdir w folder_path of
                     Inl e \<Rightarrow> (Raised e, w)
                   | Inr names \<Rightarrow> rename_loop clock folder_path names next_id w))"

subsection \<open>main\<close>

definition TARGET_FOLDERS :: "string list" where
  "TARGET_FOLDERS = [''projects'', ''templates'']"

fun main_loop :: "(nat \<Rightarrow> date) \<Rightarrow> string list \<Rightarrow> world \<Rightarrow> outcome \<times> world" where
  "main_loop clock [] w = (Returned, w)"
| "main_loop clock (folder # rest) w =
     (case process_folder clock folder w of
        (Raised e, w') \<Rightarrow> (Raised e, w')
      | (Returned, w') \<Rightarrow> main_loop clock rest w')"

definition main :: "(nat \<Rightarrow> date) \<Rightarrow> world \<Rightarrow> outcome \<times> world" where
  "main clock w = main_loop clock TARGET_FOLDERS w"

subsection \<open>What a run of the loop computes\<close>

text \<open>The test of the loop: the two \<^verbatim>\<open>continue\<close> statements skip every other name.\<close>

definition needs_rename :: "string \<Rightarrow> bool" where
  "needs_rename filename = (endswith filename ''.md'' \<and> pattern_match filename = None)"

text \<open>
  The pairs (old name, new name) of a run of the loop over a listing, when the calendar
  has been read \<open>r\<close> times before and the counter starts at \<open>next_id\<close>. It is the loop
  without its effects, and is proved below to be what the loop does.
\<close>

fun renames :: "(nat \<Rightarrow> date) \<Rightarrow> nat \<Rightarrow> string list \<Rightarrow> nat \<Rightarrow> (string \<times> string) list" where
  "renames clock r [] next_id = []"
| "renames clock r (filename # rest) next_id =
     (if needs_rename filename
      then (filename, new_filename (clock r) next_id filename)
             # renames clock (Suc r) rest (next_id + 1)
      else renames clock r rest next_id)"

text \<open>The effect of one move on the entries of the directory.\<close>

definition move_entries :: "(string \<times> nat) list \<Rightarrow> string \<times> string \<Rightarrow> (string \<times> nat) list" where
  "move_entries entries p =
     (case map_of entries (fst p) of
        None \<Rightarrow> entries
      | Some obj \<Rightarrow> AList.update (snd p) obj (AList.delete (fst p) entries))"

text \<open>The names that \<^verbatim>\<open>os.listdir\<close> returns for a folder, none when it is not a directory.\<close>

definition names_in :: "world \<Rightarrow> string \<Rightarrow> string list" where
  "names_in w path =
     (case fs w path of
        None \<Rightarrow> []
      | Some RegularFile \<Rightarrow> []
      | Some (Directory entries) \<Rightarrow> map fst entries
      | Some (ReadOnlyDirectory entries) \<Rightarrow> map fst entries)"

definition renamed_event :: "string \<Rightarrow> string \<times> string \<Rightarrow> event" where
  "renamed_event folder_path p = Renamed folder_path (fst p) (snd p)"




subsection \<open>The title as the specification words it\<close>

text \<open>
  The specification describes the title as: take the original file name, strip the
  trailing \<^verbatim>\<open>.md\<close>, lowercase it, replace every space by a hyphen, then remove every
  character that is not a lowercase ASCII letter, a digit or a hyphen. This definition
  follows these words; \<open>clean_title\<close> above follows the code.
\<close>

definition strip_trailing_md :: "string \<Rightarrow> string" where
  "strip_trailing_md filename =
     (if endswith filename ''.md'' then take (length filename - 3) filename else filename)"

definition spec_title :: "string \<Rightarrow> string" where
  "spec_title filename = re_sub_strip (replace '' '' ''-'' (lower (strip_trailing_md filename)))"

subsection \<open>The conforming shape as the specification words it\<close>

text \<open>
  The specification describes a conforming name as \<^verbatim>\<open>YYYY-MM-DD-ID-title.md\<close>: groups of
  four, two and two decimal digits, an ID of one or more decimal digits and a title of any
  characters, separated by hyphens, up to the suffix \<^verbatim>\<open>.md\<close>. These definitions follow
  these words and use nothing of the program: a decimal digit is one of ten characters,
  and the ID embedded in a name is the number that its digits denote.
\<close>

definition decimal_digit :: "char \<Rightarrow> bool" where
  "decimal_digit c = (c \<in> set ''0123456789'')"

fun decimal_value :: "string \<Rightarrow> nat" where
  "decimal_value [] = 0"
| "decimal_value (c # cs) = (of_char c - 48) * 10 ^ length cs + decimal_value cs"

definition spec_shape :: "string \<Rightarrow> string \<Rightarrow> string \<Rightarrow> bool" where
  "spec_shape name ident title =
     (\<exists>y m d.
        length y = 4 \<and> list_all decimal_digit y
        \<and> length m = 2 \<and> list_all decimal_digit m
        \<and> length d = 2 \<and> list_all decimal_digit d
        \<and> ident \<noteq> [] \<and> list_all decimal_digit ident
        \<and> name = y @ ''-'' @ m @ ''-'' @ d @ ''-'' @ ident @ ''-'' @ title @ ''.md'')"

subsection \<open>Example worlds\<close>

definition date0 :: date where
  "date0 = \<lparr>year = 2024, month = 3, day = 7\<rparr>"

definition clock0 :: "nat \<Rightarrow> date" where
  "clock0 i = date0"

definition entries0 :: "(string \<times> nat) list" where
  "entries0 =
     [(''2024-01-01-005-hello.md'', 1), (''My Notes.md'', 2), (''x.txt'', 3), (''B!! .md'', 4)]"

text \<open>Scenario A of the specification, with two more entries.\<close>

definition world0 :: world where
  "world0 =
     \<lparr>fs = (\<lambda>p. if p = ''projects'' then Some (Directory entries0) else None),
      stdout = [], reads = 0, trace = []\<rparr>"


text \<open>A folder with one file, whose name has no character that a title keeps.\<close>

definition world2 :: world where
  "world2 =
     \<lparr>fs = (\<lambda>p. if p = ''projects'' then Some (Directory [(''!!!.md'', 1)]) else None),
      stdout = [], reads = 0, trace = []\<rparr>"

text \<open>
  Two names with a line break: one inside the title, one after the suffix. Each is the
  only entry of a folder.
\<close>

definition inner_break_name :: string where
  "inner_break_name = ''2024-01-01-009-a'' @ [newline] @ ''b.md''"

definition final_break_name :: string where
  "final_break_name = ''2024-01-01-009-a.md'' @ [newline]"

definition world3 :: world where
  "world3 =
     \<lparr>fs = (\<lambda>p. if p = ''projects'' then Some (Directory [(inner_break_name, 1)])
                else if p = ''templates'' then Some (Directory [(final_break_name, 1)])
                else None),
      stdout = [], reads = 0, trace = []\<rparr>"


section \<open>Properties\<close>

subsection \<open>Strings and the title\<close>

lemma replace_Nil: "old \<noteq> [] \<Longrightarrow> replace old new [] = []"
  by (subst replace.simps) simp

lemma replace_Cons:
  "old \<noteq> [] \<Longrightarrow> replace old new (c # cs) =
     (if prefix old (c # cs) then new @ replace old new (drop (length old) (c # cs))
      else c # replace old new cs)"
  by (subst replace.simps) simp

lemma replace_md_Cons:
  "replace ''.md'' [] (c # cs) =
     (if prefix ''.md'' (c # cs) then replace ''.md'' [] (drop 2 cs)
      else c # replace ''.md'' [] cs)"
  by (subst replace_Cons) (simp_all add: numeral_2_eq_2)

lemma keep_lower: "keep_char c \<Longrightarrow> lower_char c = c"
  by (auto simp: keep_char_def lower_char_def)

lemma replace_single: "replace [a] [b] s = map (\<lambda>c. if c = a then b else c) s"
proof (induction s)
  case Nil
  show ?case by (simp add: replace_Nil)
next
  case (Cons c cs)
  show ?case
  proof (cases "c = a")
    case True
    then show ?thesis using Cons by (simp add: replace_Cons)
  next
    case False
    then show ?thesis using Cons by (simp add: replace_Cons)
  qed
qed

lemma keep_not_space: "keep_char c \<Longrightarrow> c \<noteq> CHR '' ''"
  by (auto simp: keep_char_def)

lemma slug_fixed: "list_all keep_char s \<Longrightarrow> slug s = s"
  unfolding slug_def re_sub_strip_def lower_def replace_single
  by (induction s) (auto simp: keep_lower keep_not_space)

lemma slug_keep: "list_all keep_char (slug s)"
  by (simp add: slug_def re_sub_strip_def list_all_iff)

lemma replace_md_prefix:
  "prefix ''.md'' (c # cs) \<Longrightarrow> replace ''.md'' [] (c # cs) = replace ''.md'' [] (drop 2 cs)"
  by (simp only: replace_md_Cons if_True)

lemma replace_md_no_prefix:
  "\<not> prefix ''.md'' (c # cs) \<Longrightarrow> replace ''.md'' [] (c # cs) = c # replace ''.md'' [] cs"
  by (simp only: replace_md_Cons if_False)

lemma set_replace_md: "set (replace ''.md'' [] s) \<subseteq> set s"
proof (induction s rule: length_induct)
  case (1 s)
  show ?case
  proof (cases s)
    case Nil
    then show ?thesis by (simp add: replace_Nil)
  next
    case (Cons c cs)
    show ?thesis
    proof (cases "prefix ''.md'' (c # cs)")
      case True
      have "length (drop 2 cs) < length s" using Cons by simp
      then have "set (replace ''.md'' [] (drop 2 cs)) \<subseteq> set (drop 2 cs)" using 1 by blast
      also have "\<dots> \<subseteq> set cs" by (rule set_drop_subset)
      finally have "set (replace ''.md'' [] (drop 2 cs)) \<subseteq> set s" using Cons by auto
      then show ?thesis unfolding Cons replace_md_prefix [OF True] by simp
    next
      case False
      have "set (replace ''.md'' [] cs) \<subseteq> set cs" using 1 Cons by simp
      then show ?thesis unfolding Cons replace_md_no_prefix [OF False] by auto
    qed
  qed
qed

lemma slug_idem: "slug (slug s) = slug s"
  by (rule slug_fixed) (rule slug_keep)

lemma keep_not_dot: "keep_char c \<Longrightarrow> c \<noteq> CHR ''.''"
  by (auto simp: keep_char_def)

lemma replace_md_id: "CHR ''.'' \<notin> set s \<Longrightarrow> replace ''.md'' [] s = s"
  by (induction s) (auto simp: replace_Nil replace_md_Cons)

lemma clean_title_idem: "clean_title (clean_title s) = clean_title s"
proof -
  have k: "list_all keep_char (clean_title s)" unfolding clean_title_def by (rule slug_keep)
  then have "CHR ''.'' \<notin> set (clean_title s)" using keep_not_dot by (auto simp: list_all_iff)
  then have "replace ''.md'' [] (clean_title s) = clean_title s" by (rule replace_md_id)
  then have "clean_title (clean_title s) = slug (clean_title s)" by (simp add: clean_title_def)
  then show ?thesis using slug_fixed [OF k] by simp
qed

lemma prefix_md_append:
  "prefix ''.md'' ((c # cs) @ ''.md'') \<longleftrightarrow> prefix ''.md'' (c # cs)"
proof (cases cs)
  case Nil
  then show ?thesis by auto
next
  case (Cons x xs)
  then show ?thesis by (cases xs) auto
qed

lemma replace_md_append: "replace ''.md'' [] (s @ ''.md'') = replace ''.md'' [] s"
proof (induction s rule: length_induct)
  case (1 s)
  show ?case
  proof (cases s)
    case Nil
    have "replace ''.md'' [] ''.md'' = replace ''.md'' [] []"
      by (subst replace_md_Cons) simp
    then show ?thesis using Nil by simp
  next
    case (Cons c cs)
    show ?thesis
    proof (cases "prefix ''.md'' (c # cs)")
      case True
      then have len: "2 \<le> length cs" by (auto simp: prefix_def)
      from True have p: "prefix ''.md'' (c # (cs @ ''.md''))"
        using prefix_md_append [of c cs] by simp
      have "length (drop 2 cs) < length s" using Cons by simp
      then have ih: "replace ''.md'' [] (drop 2 cs @ ''.md'') = replace ''.md'' [] (drop 2 cs)"
        using 1 by blast
      have "replace ''.md'' [] (s @ ''.md'') = replace ''.md'' [] (drop 2 (cs @ ''.md''))"
        unfolding Cons append_Cons by (rule replace_md_prefix [OF p])
      also have "drop 2 (cs @ ''.md'') = drop 2 cs @ ''.md''" using len by simp
      also note ih
      also have "replace ''.md'' [] (drop 2 cs) = replace ''.md'' [] s"
        unfolding Cons by (rule replace_md_prefix [OF True, symmetric])
      finally show ?thesis .
    next
      case False
      then have np: "\<not> prefix ''.md'' (c # (cs @ ''.md''))"
        using prefix_md_append [of c cs] by simp
      have ih: "replace ''.md'' [] (cs @ ''.md'') = replace ''.md'' [] cs"
        using 1 Cons by simp
      show ?thesis
        unfolding Cons append_Cons replace_md_no_prefix [OF np] replace_md_no_prefix [OF False] ih ..
    qed
  qed
qed


subsection \<open>Digits, numbers and names that match the pattern\<close>

lemma isdigit_digit_char: "k < 10 \<Longrightarrow> isdigit (digit_char k)"
  by (simp add: isdigit_def digit_char_def)

lemma digit_val_digit_char: "k < 10 \<Longrightarrow> digit_val (digit_char k) = k"
  by (simp add: digit_val_def digit_char_def)

lemma isdigit_zero: "isdigit (CHR ''0'')"
  by (simp add: isdigit_def)

lemma digit_val_zero: "digit_val (CHR ''0'') = 0"
  by (simp add: digit_val_def)

lemma not_isdigit_hyphen: "\<not> isdigit (CHR ''-'')"
  by (simp add: isdigit_def)

lemma isdigit_keep: "isdigit c \<Longrightarrow> keep_char c"
  by (simp add: isdigit_def keep_char_def)

lemma keep_not_newline: "keep_char c \<Longrightarrow> c \<noteq> newline"
  by (auto simp: keep_char_def newline_def)

lemma str_nat_digits: "list_all isdigit (str_nat n)"
proof (induction n rule: str_nat.induct)
  case (1 n)
  show ?case
  proof (cases "n < 10")
    case True
    then show ?thesis by (subst str_nat.simps) (simp add: isdigit_digit_char)
  next
    case False
    then show ?thesis using 1 by (subst str_nat.simps) (simp add: isdigit_digit_char)
  qed
qed

lemma str_nat_nonempty: "str_nat n \<noteq> []"
  by (subst str_nat.simps) simp

lemma py_int_snoc: "py_int (s @ [c]) = 10 * py_int s + digit_val c"
  by (simp add: py_int_def)

lemma py_int_str_nat: "py_int (str_nat n) = n"
proof (induction n rule: str_nat.induct)
  case (1 n)
  show ?case
  proof (cases "n < 10")
    case True
    then show ?thesis by (subst str_nat.simps) (simp add: py_int_def digit_val_digit_char)
  next
    case False
    then have "py_int (str_nat (n div 10)) = n div 10" using 1 by simp
    then show ?thesis using False
      by (subst str_nat.simps) (simp add: py_int_snoc digit_val_digit_char)
  qed
qed

lemma foldl_zeros: "foldl (\<lambda>a c. 10 * a + digit_val c) 0 (replicate k (CHR ''0'')) = 0"
  by (induction k) (simp_all add: digit_val_zero)

lemma py_int_zfill: "py_int (zfill k s) = py_int s"
  by (simp add: py_int_def zfill_def foldl_zeros)

lemma zfill_digits: "list_all isdigit s \<Longrightarrow> list_all isdigit (zfill k s)"
  by (auto simp: zfill_def list_all_iff isdigit_zero)

lemma length_zfill: "length (zfill k s) = max k (length s)"
  by (simp add: zfill_def)

lemma length_str_nat: "0 < k \<Longrightarrow> n < 10 ^ k \<Longrightarrow> length (str_nat n) \<le> k"
proof (induction k arbitrary: n)
  case 0
  then show ?case by simp
next
  case (Suc k)
  show ?case
  proof (cases "n < 10")
    case True
    then show ?thesis by (subst str_nat.simps) simp
  next
    case False
    then have k: "0 < k" using Suc.prems by (cases k) auto
    have "n div 10 < 10 ^ k" using Suc.prems by (simp add: less_mult_imp_div_less mult.commute)
    then have "length (str_nat (n div 10)) \<le> k" using Suc.IH k by simp
    then show ?thesis using False by (subst str_nat.simps) simp
  qed
qed

lemma format_03d_digits: "list_all isdigit (format_03d n)"
  by (simp add: format_03d_def zfill_digits str_nat_digits)

lemma format_03d_nonempty: "format_03d n \<noteq> []"
  by (simp add: format_03d_def zfill_def str_nat_nonempty)

lemma py_int_format_03d: "py_int (format_03d n) = n"
  by (simp add: format_03d_def py_int_zfill py_int_str_nat)

lemma digits_n_append:
  "length ds = k \<Longrightarrow> list_all isdigit ds \<Longrightarrow> digits_n k (ds @ rest) = Some rest"
  by (induction k ds rule: digits_n.induct) auto

lemma tail_match_append: "newline \<notin> set u \<Longrightarrow> tail_match (u @ ''.md'')"
  by (induction u) (auto simp: md_dollar_def)

lemma pattern_match_shape:
  assumes "length y = 4" "list_all isdigit y" "length m = 2" "list_all isdigit m"
    "length dd = 2" "list_all isdigit dd" "g \<noteq> []" "list_all isdigit g" "tail_match t"
  shows "pattern_match (y @ CHR ''-'' # m @ CHR ''-'' # dd @ CHR ''-'' # g @ CHR ''-'' # t) = Some g"
proof -
  have tw: "takeWhile isdigit (g @ CHR ''-'' # t) = g"
    using assms(8) by (simp add: takeWhile_append2 list_all_iff not_isdigit_hyphen)
  have dw: "dropWhile isdigit (g @ CHR ''-'' # t) = CHR ''-'' # t"
    using assms(8) by (simp add: dropWhile_append2 list_all_iff not_isdigit_hyphen)
  show ?thesis
    unfolding pattern_match_def
    using assms by (simp add: digits_n_append tw dw)
qed

lemma strftime_shape:
  assumes "valid_date d"
  shows "\<exists>y m dd. strftime d = y @ CHR ''-'' # m @ CHR ''-'' # dd
           \<and> length y = 4 \<and> list_all isdigit y \<and> length m = 2 \<and> list_all isdigit m
           \<and> length dd = 2 \<and> list_all isdigit dd"
proof -
  have "year d < 10 ^ 4" "month d < 10 ^ 2" "day d < 10 ^ 2"
    using assms by (simp_all add: valid_date_def)
  then have "length (str_nat (year d)) \<le> 4" "length (str_nat (month d)) \<le> 2"
    "length (str_nat (day d)) \<le> 2"
    by (simp_all add: length_str_nat)
  then have "length (zfill 4 (str_nat (year d))) = 4" "length (zfill 2 (str_nat (month d))) = 2"
    "length (zfill 2 (str_nat (day d))) = 2"
    by (simp_all add: length_zfill)
  moreover have "list_all isdigit (zfill 4 (str_nat (year d)))"
    "list_all isdigit (zfill 2 (str_nat (month d)))" "list_all isdigit (zfill 2 (str_nat (day d)))"
    by (simp_all add: zfill_digits str_nat_digits)
  ultimately show ?thesis unfolding strftime_def by auto
qed

lemma clean_title_keep: "list_all keep_char (clean_title f)"
  unfolding clean_title_def by (rule slug_keep)

lemma pattern_match_new_filename:
  assumes "valid_date d"
  shows "pattern_match (new_filename d n f) = Some (format_03d n)"
proof -
  obtain y m dd where s: "strftime d = y @ CHR ''-'' # m @ CHR ''-'' # dd"
    and sh: "length y = 4" "list_all isdigit y" "length m = 2" "list_all isdigit m"
      "length dd = 2" "list_all isdigit dd"
    using strftime_shape [OF assms] by blast
  have "newline \<notin> set (clean_title f)"
    using clean_title_keep [of f] keep_not_newline by (auto simp: list_all_iff)
  then have t: "tail_match (clean_title f @ ''.md'')" by (rule tail_match_append)
  have "new_filename d n f =
      y @ CHR ''-'' # m @ CHR ''-'' # dd @ CHR ''-'' # format_03d n @ CHR ''-'' # (clean_title f @ ''.md'')"
    by (simp add: new_filename_def s)
  then show ?thesis
    using pattern_match_shape [OF sh format_03d_nonempty format_03d_digits t] by simp
qed


subsection \<open>The loop of process\_folder and its effect\<close>

lemma dom_delete_eq: "fst ` set (AList.delete k al) = fst ` set al - {k}"
  by (induction al) auto

lemma dom_move_entries:
  "map_of entries old = Some obj \<Longrightarrow>
   fst ` set (move_entries entries (old, new)) = insert new (fst ` set entries - {old})"
  by (simp add: move_entries_def dom_update dom_delete_eq)

lemma shutil_move_present:
  assumes "fs w folder = Some (Directory entries)" "map_of entries old = Some obj"
  shows "shutil_move folder old new w =
           Inr (w\<lparr>fs := (fs w)(folder \<mapsto> Directory (move_entries entries (old, new))),
                  trace := trace w @ [Renamed folder old new]\<rparr>)"
  using assms by (simp add: shutil_move_def move_entries_def)

lemma rename_loop_effect:
  assumes "fs w folder = Some (Directory entries)" "distinct names"
    "set names \<subseteq> fst ` set entries"
  shows "rename_loop clock folder names n w =
           (Returned,
            w\<lparr>fs := (fs w)(folder \<mapsto>
                      Directory (foldl move_entries entries (renames clock (reads w) names n))),
              stdout := stdout w @ map (\<lambda>p. rename_line (fst p) (snd p)) (renames clock (reads w) names n),
              reads := reads w + length (renames clock (reads w) names n),
              trace := trace w @ map (renamed_event folder) (renames clock (reads w) names n)\<rparr>)"
  using assms
proof (induction names arbitrary: n w entries)
  case Nil
  then have "(fs w)(folder \<mapsto> Directory entries) = fs w" by (simp add: fun_upd_idem)
  then show ?case by simp
next
  case (Cons filename rest)
  show ?case
  proof (cases "needs_rename filename")
    case False
    have "rename_loop clock folder (filename # rest) n w = rename_loop clock folder rest n w"
      using False by (auto simp: needs_rename_def)
    moreover have "renames clock (reads w) (filename # rest) n = renames clock (reads w) rest n"
      using False by simp
    ultimately show ?thesis using Cons.IH [of w entries n] Cons.prems by simp
  next
    case True
    define new where "new = new_filename (clock (reads w)) n filename"
    define w2 where "w2 = print (rename_line filename new) (w\<lparr>reads := Suc (reads w)\<rparr>)"
    obtain obj where obj: "map_of entries filename = Some obj"
      using Cons.prems(3) by (cases "map_of entries filename") (auto simp: map_of_eq_None_iff)
    define entries3 where "entries3 = move_entries entries (filename, new)"
    define w3 where "w3 = w2\<lparr>fs := (fs w2)(folder \<mapsto> Directory entries3),
                          trace := trace w2 @ [Renamed folder filename new]\<rparr>"
    have fs2: "fs w2 folder = Some (Directory entries)"
      using Cons.prems(1) by (simp add: w2_def print_def)
    have mv: "shutil_move folder filename new w2 = Inr w3"
      unfolding w3_def entries3_def by (rule shutil_move_present [OF fs2 obj])
    have step: "rename_loop clock folder (filename # rest) n w
                  = rename_loop clock folder rest (n + 1) w3"
      using True mv by (simp add: needs_rename_def Let_def new_def w2_def)
    have fs3: "fs w3 folder = Some (Directory entries3)" by (simp add: w3_def)
    have sub: "set rest \<subseteq> fst ` set entries3"
      using Cons.prems(2,3) by (auto simp: entries3_def dom_move_entries [OF obj])
    have d: "distinct rest" using Cons.prems(2) by simp
    have r3: "reads w3 = Suc (reads w)" by (simp add: w3_def w2_def print_def)
    define pl' where "pl' = renames clock (Suc (reads w)) rest (n + 1)"
    have pl: "renames clock (reads w) (filename # rest) n = (filename, new) # pl'"
      using True by (simp add: new_def pl'_def)
    have f3: "(fs w3)(folder \<mapsto> X) = (fs w)(folder \<mapsto> X)" for X
      by (simp add: w3_def w2_def print_def)
    have upd: "w3\<lparr>fs := F, stdout := S, reads := R, trace := T\<rparr>
                 = w\<lparr>fs := F, stdout := S, reads := R, trace := T\<rparr>" for F S R T
      by (simp add: w3_def w2_def print_def)
    have e1: "foldl move_entries entries3 pl' = foldl move_entries entries ((filename, new) # pl')"
      by (simp add: entries3_def)
    have e2: "stdout w3 @ map (\<lambda>p. rename_line (fst p) (snd p)) pl'
                = stdout w @ map (\<lambda>p. rename_line (fst p) (snd p)) ((filename, new) # pl')"
      by (simp add: w3_def w2_def print_def)
    have e3: "Suc (reads w) + length pl' = reads w + length ((filename, new) # pl')"
      by simp
    have e4: "trace w3 @ map (renamed_event folder) pl'
                = trace w @ map (renamed_event folder) ((filename, new) # pl')"
      by (simp add: w3_def w2_def print_def renamed_event_def)
    have "rename_loop clock folder rest (n + 1) w3 =
            (Returned,
             w3\<lparr>fs := (fs w3)(folder \<mapsto> Directory (foldl move_entries entries3 pl')),
                stdout := stdout w3 @ map (\<lambda>p. rename_line (fst p) (snd p)) pl',
                reads := Suc (reads w) + length pl',
                trace := trace w3 @ map (renamed_event folder) pl'\<rparr>)"
      using Cons.IH [OF fs3 d sub, of "n + 1"] unfolding r3 pl'_def .
    then show ?thesis
      unfolding step pl by (simp only: f3 upd e1 e2 e3 e4)
  qed
qed


subsection \<open>The pattern, in words\<close>

lemma digits_n_Some:
  "digits_n k s = Some rest \<Longrightarrow> \<exists>ds. s = ds @ rest \<and> length ds = k \<and> list_all isdigit ds"
proof (induction k s rule: digits_n.induct)
  case (1 s)
  then show ?case by simp
next
  case (2 n)
  then show ?case by simp
next
  case (3 n c cs)
  then have c: "isdigit c" and r: "digits_n n cs = Some rest" by (simp_all split: if_splits)
  from 3(1) [OF c r] obtain ds where "cs = ds @ rest" "length ds = n" "list_all isdigit ds"
    by blast
  then show ?case using c by (intro exI [of _ "c # ds"]) simp
qed

lemma lit_Some: "lit a s = Some rest \<Longrightarrow> s = a # rest"
  by (cases s) (simp_all split: if_splits)

lemma tail_match_newline:
  "newline \<notin> set t \<Longrightarrow> tail_match (t @ ''.md'' @ [newline])"
  by (induction t) (auto simp: md_dollar_def)

lemma tail_match_Some:
  "tail_match s \<Longrightarrow> \<exists>t. newline \<notin> set t \<and> (s = t @ ''.md'' \<or> s = t @ ''.md'' @ [newline])"
proof (induction s)
  case Nil
  then show ?case by simp
next
  case (Cons c cs)
  show ?case
  proof (cases "md_dollar (c # cs)")
    case True
    then show ?thesis by (intro exI [of _ "[]"]) (simp add: md_dollar_def)
  next
    case False
    then have c: "c \<noteq> newline" and "tail_match cs" using Cons.prems by simp_all
    then obtain t where "newline \<notin> set t" "cs = t @ ''.md'' \<or> cs = t @ ''.md'' @ [newline]"
      using Cons.IH by blast
    then show ?thesis using c by (intro exI [of _ "c # t"]) auto
  qed
qed

lemma tail_match_iff:
  "tail_match s \<longleftrightarrow>
     (\<exists>t. newline \<notin> set t \<and> (s = t @ ''.md'' \<or> s = t @ ''.md'' @ [newline]))"
  using tail_match_Some tail_match_append tail_match_newline by blast

text \<open>
  A name matches the pattern, with group 1 equal to \<open>g\<close>, exactly when it is four digits,
  two digits, two digits, the digits \<open>g\<close> (at least one), and a title, joined by hyphens,
  then \<^verbatim>\<open>.md\<close>, where the title has no line break; a line break may follow \<^verbatim>\<open>.md\<close>.
\<close>

lemma pattern_match_iff:
  "pattern_match s = Some g \<longleftrightarrow>
     (\<exists>y m dd t. length y = 4 \<and> list_all isdigit y \<and> length m = 2 \<and> list_all isdigit m
        \<and> length dd = 2 \<and> list_all isdigit dd \<and> g \<noteq> [] \<and> list_all isdigit g
        \<and> newline \<notin> set t
        \<and> (s = y @ ''-'' @ m @ ''-'' @ dd @ ''-'' @ g @ ''-'' @ t @ ''.md''
            \<or> s = y @ ''-'' @ m @ ''-'' @ dd @ ''-'' @ g @ ''-'' @ t @ ''.md'' @ [newline]))"
  (is "?L \<longleftrightarrow> ?R")
proof
  assume ?L
  then obtain s1 s2 s3 s4 s5 s6 s8 where
    a1: "digits_n 4 s = Some s1" and a2: "lit (CHR ''-'') s1 = Some s2"
    and a3: "digits_n 2 s2 = Some s3" and a4: "lit (CHR ''-'') s3 = Some s4"
    and a5: "digits_n 2 s4 = Some s5" and a6: "lit (CHR ''-'') s5 = Some s6"
    and a7: "takeWhile isdigit s6 \<noteq> []"
    and a8: "lit (CHR ''-'') (dropWhile isdigit s6) = Some s8"
    and a9: "tail_match s8" and g: "g = takeWhile isdigit s6"
    by (auto simp: pattern_match_def split: Option.bind_splits if_splits)
  obtain y where y: "s = y @ s1" "length y = 4" "list_all isdigit y"
    using digits_n_Some [OF a1] by blast
  obtain m where m: "s2 = m @ s3" "length m = 2" "list_all isdigit m"
    using digits_n_Some [OF a3] by blast
  obtain dd where dd: "s4 = dd @ s5" "length dd = 2" "list_all isdigit dd"
    using digits_n_Some [OF a5] by blast
  have s6: "s6 = g @ CHR ''-'' # s8"
    using lit_Some [OF a8] takeWhile_dropWhile_id [of isdigit s6] g by simp
  have gd: "list_all isdigit g" unfolding g list_all_iff by (auto dest: set_takeWhileD)
  obtain t where t: "newline \<notin> set t" "s8 = t @ ''.md'' \<or> s8 = t @ ''.md'' @ [newline]"
    using tail_match_Some [OF a9] by blast
  have "s = y @ ''-'' @ m @ ''-'' @ dd @ ''-'' @ g @ ''-'' @ s8"
    using y(1) lit_Some [OF a2] m(1) lit_Some [OF a4] dd(1) lit_Some [OF a6] s6 by simp
  then show ?R using y(2,3) m(2,3) dd(2,3) a7 g gd t by blast
next
  assume ?R
  then obtain y m dd t where sh: "length y = 4" "list_all isdigit y" "length m = 2"
    "list_all isdigit m" "length dd = 2" "list_all isdigit dd" "g \<noteq> []" "list_all isdigit g"
    and t: "newline \<notin> set t"
    and s: "s = y @ ''-'' @ m @ ''-'' @ dd @ ''-'' @ g @ ''-'' @ t @ ''.md''
            \<or> s = y @ ''-'' @ m @ ''-'' @ dd @ ''-'' @ g @ ''-'' @ t @ ''.md'' @ [newline]"
    by blast
  from s show ?L
  proof
    assume "s = y @ ''-'' @ m @ ''-'' @ dd @ ''-'' @ g @ ''-'' @ t @ ''.md''"
    then show ?L using pattern_match_shape [OF sh tail_match_append [OF t]] by simp
  next
    assume "s = y @ ''-'' @ m @ ''-'' @ dd @ ''-'' @ g @ ''-'' @ t @ ''.md'' @ [newline]"
    then show ?L using pattern_match_shape [OF sh tail_match_newline [OF t]] by simp
  qed
qed

subsection \<open>The title of the code and the title of the specification\<close>

text \<open>
  The two titles agree on every name whose part before the final \<^verbatim>\<open>.md\<close> has no
  occurrence of \<^verbatim>\<open>.md\<close>.
\<close>

lemma clean_title_spec_title_agree:
  assumes "replace ''.md'' [] stem = stem"
  shows "clean_title (stem @ ''.md'') = spec_title (stem @ ''.md'')"
proof -
  have "strip_trailing_md (stem @ ''.md'') = stem"
    by (simp add: strip_trailing_md_def endswith_def suffix_def)
  then show ?thesis
    using assms by (simp add: clean_title_def spec_title_def slug_def replace_md_append)
qed

subsection \<open>Claims about the title\<close>

text \<open>
  Claim C7. The slug transform (lowercase, space to hyphen, strip what is not a
  lowercase letter, a digit or a hyphen) is idempotent: applied twice it gives what it gives
  applied once. The same holds for the whole computation of the title, which first removes
  the occurrences of \<^verbatim>\<open>.md\<close>.
\<close>

theorem slug_idempotent:
  "slug (slug s) = slug s \<and> clean_title (clean_title s) = clean_title s"
proof
  show "slug (slug s) = slug s" by (rule slug_idem)
  show "clean_title (clean_title s) = clean_title s" by (rule clean_title_idem)
qed

text \<open>
  Claim C4. The title is the file name without its trailing \<^verbatim>\<open>.md\<close>, lowercased, with
  hyphens for spaces and every other character outside a-z, 0-9 and the hyphen removed.
  The code removes every occurrence of \<^verbatim>\<open>.md\<close>, not only the trailing one: the name
  \<^verbatim>\<open>report.mdx.md\<close>, which ends in \<^verbatim>\<open>.md\<close> and is not conforming, gets the title
  \<^verbatim>\<open>reportx\<close>, where the words of the claim give \<^verbatim>\<open>reportmdx\<close>.
\<close>

theorem clean_title_removes_inner_md:
  "endswith ''report.mdx.md'' ''.md''
   \<and> pattern_match ''report.mdx.md'' = None
   \<and> clean_title ''report.mdx.md'' = ''reportx''
   \<and> spec_title ''report.mdx.md'' = ''reportmdx''"
  by code_simp

subsection \<open>The scan of get\_next\_id\<close>

lemma scan_ids_ge: "max_id \<le> scan_ids names max_id"
proof (induction names arbitrary: max_id)
  case Nil
  show ?case by simp
next
  case (Cons filename rest)
  show ?case
  proof (cases "pattern_match filename")
    case None
    then show ?thesis using Cons [of max_id] by simp
  next
    case (Some g)
    show ?thesis
    proof (cases "py_int g > max_id")
      case True
      then show ?thesis using Some Cons [of "py_int g"] by simp
    next
      case False
      then show ?thesis using Some Cons [of max_id] by simp
    qed
  qed
qed

lemma scan_ids_upper:
  "name \<in> set names \<Longrightarrow> embedded_id name = Some i \<Longrightarrow> i \<le> scan_ids names max_id"
proof (induction names arbitrary: max_id)
  case Nil
  then show ?case by simp
next
  case (Cons filename rest)
  show ?case
  proof (cases "name = filename")
    case True
    then obtain g where g: "pattern_match filename = Some g" and i: "i = py_int g"
      using Cons.prems(2) by (auto simp: embedded_id_def)
    show ?thesis
    proof (cases "py_int g > max_id")
      case True
      then show ?thesis using g i scan_ids_ge [of "py_int g" rest] by simp
    next
      case False
      then have "i \<le> max_id" using i by simp
      then show ?thesis using False g scan_ids_ge [of max_id rest] by simp
    qed
  next
    case False
    then have "name \<in> set rest" using Cons.prems(1) by simp
    then have "i \<le> scan_ids rest m" for m using Cons.IH Cons.prems(2) by blast
    then show ?thesis by (simp add: Let_def split: option.split)
  qed
qed

lemma scan_ids_attained:
  "scan_ids names max_id = max_id
   \<or> (\<exists>name \<in> set names. embedded_id name = Some (scan_ids names max_id))"
proof (induction names arbitrary: max_id)
  case Nil
  show ?case by simp
next
  case (Cons filename rest)
  show ?case
  proof (cases "pattern_match filename")
    case None
    then show ?thesis using Cons [of max_id] by auto
  next
    case (Some g)
    then have e: "embedded_id filename = Some (py_int g)" by (simp add: embedded_id_def)
    show ?thesis
    proof (cases "py_int g > max_id")
      case True
      then show ?thesis using Some e Cons [of "py_int g"] by auto
    next
      case False
      then show ?thesis using Some Cons [of max_id] by auto
    qed
  qed
qed

lemma scan_ids_none:
  "\<forall>name \<in> set names. embedded_id name = None \<Longrightarrow> scan_ids names max_id = max_id"
  by (induction names arbitrary: max_id) (auto simp: embedded_id_def)

lemma get_next_id_directory:
  "fs w path = Some (Directory entries) \<Longrightarrow>
   get_next_id w path = Inr (scan_ids (map fst entries) 0 + 1)"
  by (simp add: get_next_id_def os_path_exists_def os_listdir_def)

lemma get_next_id_absent: "fs w path = None \<Longrightarrow> get_next_id w path = Inr 1"
  by (simp add: get_next_id_def os_path_exists_def)

subsection \<open>The pairs of a run\<close>

lemma renames_fst: "map fst (renames clock r names n) = filter needs_rename names"
  by (induction names arbitrary: r n) auto

lemma renames_nth:
  "i < length (filter needs_rename names) \<Longrightarrow>
   renames clock r names n ! i =
     (filter needs_rename names ! i,
      new_filename (clock (r + i)) (n + i) (filter needs_rename names ! i))"
proof (induction names arbitrary: r n i)
  case Nil
  then show ?case by simp
next
  case (Cons filename rest)
  show ?case
  proof (cases "needs_rename filename")
    case False
    then show ?thesis using Cons by simp
  next
    case True
    show ?thesis
    proof (cases i)
      case 0
      then show ?thesis using True by simp
    next
      case (Suc j)
      then have "j < length (filter needs_rename rest)" using Cons.prems True by simp
      from Cons.IH [OF this, of "Suc r" "n + 1"] show ?thesis using True Suc by simp
    qed
  qed
qed

lemma embedded_id_new_filename:
  "valid_date d \<Longrightarrow> embedded_id (new_filename d n f) = Some n"
  by (simp add: embedded_id_def pattern_match_new_filename py_int_format_03d)

lemma renames_ids:
  assumes "\<forall>i. valid_date (clock i)"
  shows "map (\<lambda>p. embedded_id (snd p)) (renames clock r names n)
           = map Some [n ..< n + length (renames clock r names n)]"
proof (induction names arbitrary: r n)
  case Nil
  show ?case by simp
next
  case (Cons filename rest)
  show ?case
  proof (cases "needs_rename filename")
    case False
    then show ?thesis using Cons by simp
  next
    case True
    have "embedded_id (new_filename (clock r) n filename) = Some n"
      using assms by (simp add: embedded_id_new_filename)
    moreover have "[n ..< n + Suc k] = n # [Suc n ..< Suc n + k]" for k
      by (simp add: upt_conv_Cons)
    ultimately show ?thesis using True Cons [of "Suc r" "Suc n"] by simp
  qed
qed

lemma renames_new_distinct:
  assumes "\<forall>i. valid_date (clock i)"
  shows "distinct (map snd (renames clock r names n))"
proof -
  have "distinct (map Some [n ..< n + length (renames clock r names n)])"
    by (simp add: distinct_map)
  then have "distinct (map embedded_id (map snd (renames clock r names n)))"
    using renames_ids [OF assms, of r names n] by (simp add: comp_def)
  then show ?thesis by (rule distinct_map [THEN iffD1, THEN conjunct1])
qed

lemma renames_new_id:
  assumes "\<forall>i. valid_date (clock i)" "p \<in> set (renames clock r names n)"
  shows "\<exists>k. n \<le> k \<and> embedded_id (snd p) = Some k"
proof -
  obtain i where i: "i < length (renames clock r names n)" "renames clock r names n ! i = p"
    using assms(2) by (auto simp: in_set_conv_nth)
  have "map (\<lambda>p. embedded_id (snd p)) (renames clock r names n) ! i
          = map Some [n ..< n + length (renames clock r names n)] ! i"
    using renames_ids [OF assms(1), of r names n] by simp
  then have "embedded_id (snd p) = Some (n + i)" using i by simp
  then show ?thesis by auto
qed

lemma renames_new_fresh:
  assumes "\<forall>i. valid_date (clock i)" "p \<in> set (renames clock r names n)"
    "\<forall>name k. name \<in> S \<and> embedded_id name = Some k \<longrightarrow> k < n"
  shows "snd p \<notin> S"
proof
  assume "snd p \<in> S"
  moreover obtain k where "n \<le> k" "embedded_id (snd p) = Some k"
    using renames_new_id [OF assms(1,2)] by blast
  ultimately show False using assms(3) by (metis not_le)
qed

subsection \<open>Moves on the entries of a directory\<close>









subsection \<open>One call of process\_folder\<close>



lemma process_folder_directory:
  assumes "fs w folder = Some (Directory entries)" "distinct (map fst entries)"
  shows "\<exists>w'. process_folder clock folder w = (Returned, w')
           \<and> fs w' = (fs w)(folder \<mapsto> Directory (foldl move_entries entries
                 (renames clock (reads w) (map fst entries) (scan_ids (map fst entries) 0 + 1))))
           \<and> stdout w' = stdout w @ scanning_line folder
                 # map (\<lambda>p. rename_line (fst p) (snd p))
                     (renames clock (reads w) (map fst entries) (scan_ids (map fst entries) 0 + 1))
           \<and> reads w' = reads w
                 + length (renames clock (reads w) (map fst entries) (scan_ids (map fst entries) 0 + 1))
           \<and> trace w' = trace w @ Scanned folder
                 # map (renamed_event folder)
                     (renames clock (reads w) (map fst entries) (scan_ids (map fst entries) 0 + 1))"
proof -
  define w1 where "w1 = print (scanning_line folder) (w\<lparr>trace := trace w @ [Scanned folder]\<rparr>)"
  define next_id where "next_id = scan_ids (map fst entries) 0 + 1"
  have fs1: "fs w1 folder = Some (Directory entries)"
    using assms(1) by (simp add: w1_def print_def)
  have flds: "fs w1 = fs w" "stdout w1 = stdout w @ [scanning_line folder]" "reads w1 = reads w"
    "trace w1 = trace w @ [Scanned folder]"
    by (simp_all add: w1_def print_def)
  have g: "get_next_id w1 folder = Inr next_id"
    unfolding next_id_def by (rule get_next_id_directory [OF fs1])
  have l: "os_listdir w1 folder = Inr (map fst entries)"
    using fs1 by (simp add: os_listdir_def)
  have e: "os_path_exists w1 folder" using fs1 by (simp add: os_path_exists_def)
  have sub: "set (map fst entries) \<subseteq> fst ` set entries" by simp
  have run: "process_folder clock folder w = rename_loop clock folder (map fst entries) next_id w1"
    using g l e unfolding process_folder_def w1_def [symmetric] by (simp add: Let_def)
  show ?thesis
    unfolding run rename_loop_effect [OF fs1 assms(2) sub] flds next_id_def [symmetric]
    by simp
qed




subsection \<open>A run of process\_folder on a directory\<close>

lemma process_folder_run:
  assumes "fs w folder = Some (Directory entries)" "distinct (map fst entries)"
    "\<forall>i. valid_date (clock i)"
  obtains next_id pl w' where
    "get_next_id w folder = Inr next_id"
    "process_folder clock folder w = (Returned, w')"
    "trace w' = trace w @ Scanned folder # map (renamed_event folder) pl"
    "fs w' = (fs w)(folder \<mapsto> Directory (foldl move_entries entries pl))"
    "pl = renames clock (reads w) (map fst entries) next_id"
    "map fst pl = filter needs_rename (map fst entries)"
    "map (\<lambda>p. embedded_id (snd p)) pl = map Some [next_id ..< next_id + length pl]"
    "\<forall>name i. name \<in> fst ` set entries \<and> embedded_id name = Some i \<longrightarrow> i < next_id"
    "distinct (map snd pl)"
    "snd ` set pl \<inter> fst ` set entries = {}"
proof -
  define next_id where "next_id = scan_ids (map fst entries) 0 + 1"
  define pl where "pl = renames clock (reads w) (map fst entries) next_id"
  obtain w' where r: "process_folder clock folder w = (Returned, w')"
    and f: "fs w' = (fs w)(folder \<mapsto> Directory (foldl move_entries entries pl))"
    and t: "trace w' = trace w @ Scanned folder # map (renamed_event folder) pl"
    using process_folder_directory [OF assms(1,2), of clock] unfolding pl_def next_id_def by blast
  have g: "get_next_id w folder = Inr next_id"
    unfolding next_id_def by (rule get_next_id_directory [OF assms(1)])
  have above: "\<forall>name i. name \<in> fst ` set entries \<and> embedded_id name = Some i \<longrightarrow> i < next_id"
  proof (intro allI impI)
    fix name i
    assume "name \<in> fst ` set entries \<and> embedded_id name = Some i"
    then have "name \<in> set (map fst entries)" "embedded_id name = Some i" by simp_all
    from scan_ids_upper [OF this, of 0] show "i < next_id" by (simp add: next_id_def)
  qed
  have fr: "snd ` set pl \<inter> fst ` set entries = {}"
  proof -
    have "snd p \<notin> fst ` set entries" if "p \<in> set pl" for p
      using renames_new_fresh [OF assms(3) that [unfolded pl_def] above] .
    then show ?thesis by blast
  qed
  show thesis
    using that [OF g r t f pl_def _ _ above _ fr]
      renames_fst [of clock "reads w" "map fst entries" next_id]
      renames_ids [OF assms(3), of "reads w" "map fst entries" next_id]
      renames_new_distinct [OF assms(3), of "reads w" "map fst entries" next_id]
    unfolding pl_def [symmetric] by blast
qed


lemma world0_dir: "fs world0 ''projects'' = Some (Directory entries0)"
  by (simp add: world0_def)

lemma entries0_distinct: "distinct (map fst entries0)"
  by (simp add: entries0_def)

lemma clock0_valid: "\<forall>i. valid_date (clock0 i)"
  by (simp add: clock0_def date0_def valid_date_def)






subsection \<open>Names with an empty title\<close>

lemma pattern_match_starts_with_digit:
  "pattern_match s = Some g \<Longrightarrow> \<exists>c cs. s = c # cs \<and> isdigit c"
  by (cases s) (auto simp: pattern_match_def eval_nat_numeral split: if_splits Option.bind_splits)

lemma isdigit_slug_char:
  "isdigit c \<Longrightarrow> c \<in> set (replace '' '' ''-'' (lower (c # cs)))"
  using keep_lower [OF isdigit_keep, of c] keep_not_space [OF isdigit_keep, of c]
  by (simp add: replace_single lower_def)

lemma not_isdigit_dot: "\<not> isdigit (CHR ''.'')"
  by (simp add: isdigit_def)

lemma no_keep_not_conforming:
  assumes "\<forall>c \<in> set (replace '' '' ''-'' (lower stem)). \<not> keep_char c"
  shows "pattern_match (stem @ ''.md'') = None"
proof (cases "pattern_match (stem @ ''.md'')")
  case None
  then show ?thesis .
next
  case (Some g)
  then obtain c cs where s: "stem @ ''.md'' = c # cs" and d: "isdigit c"
    using pattern_match_starts_with_digit by blast
  show ?thesis
  proof (cases stem)
    case Nil
    then show ?thesis using s d not_isdigit_dot by simp
  next
    case (Cons a as)
    then have "a = c" using s by simp
    then have "c \<in> set (replace '' '' ''-'' (lower stem))"
      using isdigit_slug_char [OF d, of as] Cons by simp
    then show ?thesis using assms isdigit_keep [OF d] by blast
  qed
qed

lemma no_keep_clean_title:
  assumes "\<forall>c \<in> set (replace '' '' ''-'' (lower stem)). \<not> keep_char c"
  shows "clean_title (stem @ ''.md'') = []"
proof -
  have "set (replace '' '' ''-'' (lower (replace ''.md'' [] stem)))
          \<subseteq> set (replace '' '' ''-'' (lower stem))"
    using set_replace_md [of stem] by (auto simp: replace_single lower_def)
  then have "\<forall>c \<in> set (replace '' '' ''-'' (lower (replace ''.md'' [] stem))). \<not> keep_char c"
    using assms by blast
  then show ?thesis
    by (simp add: clean_title_def slug_def re_sub_strip_def replace_md_append filter_empty_conv)
qed

text \<open>
  Claim C10. A name that ends in \<^verbatim>\<open>.md\<close> and has, before it, no character that the
  lowercasing and the replacement of spaces turn into a lowercase letter, a digit or a
  hyphen, is not conforming; its rename succeeds, and the new name is the date, the
  padded counter and an empty title: \<^verbatim>\<open>{date}-{id}-.md\<close>. This name matches the pattern,
  so the loop of a later run skips it.
\<close>

theorem empty_title_rename:
  assumes "valid_date (clock (reads w))"
    "\<forall>c \<in> set (replace '' '' ''-'' (lower stem)). \<not> keep_char c"
    "fs w folder = Some (Directory entries)" "stem @ ''.md'' \<in> fst ` set entries"
  shows "\<exists>w'. needs_rename (stem @ ''.md'')
           \<and> rename_loop clock folder [stem @ ''.md''] n w = (Returned, w')
           \<and> trace w' = trace w @ [Renamed folder (stem @ ''.md'')
                 (strftime (clock (reads w)) @ ''-'' @ format_03d n @ ''-.md'')]
           \<and> pattern_match (strftime (clock (reads w)) @ ''-'' @ format_03d n @ ''-.md'')
               = Some (format_03d n)
           \<and> (\<forall>clock' folder' rest k v.
                 rename_loop clock' folder' ((strftime (clock (reads w)) @ ''-'' @ format_03d n @ ''-.md'') # rest) k v
                   = rename_loop clock' folder' rest k v)"
proof -
  define filename where "filename = stem @ ''.md''"
  define new where "new = strftime (clock (reads w)) @ ''-'' @ format_03d n @ ''-.md''"
  have nr: "needs_rename filename"
    using no_keep_not_conforming [OF assms(2)]
    by (simp add: needs_rename_def filename_def endswith_def suffix_def)
  have nf: "new_filename (clock (reads w)) n filename = new"
    using no_keep_clean_title [OF assms(2)] by (simp add: new_filename_def filename_def new_def)
  have pm: "pattern_match new = Some (format_03d n)"
    using pattern_match_new_filename [OF assms(1), of n filename] unfolding nf .
  have pl: "renames clock (reads w) [filename] n = [(filename, new)]"
    using nr nf by simp
  have sub: "set [filename] \<subseteq> fst ` set entries" using assms(4) by (simp add: filename_def)
  have d: "distinct [filename]" by simp
  obtain w' where r: "rename_loop clock folder [filename] n w = (Returned, w')"
    and t: "trace w' = trace w @ map (renamed_event folder) [(filename, new)]"
    using rename_loop_effect [OF assms(3) d sub, of clock n] unfolding pl by simp
  have skip: "rename_loop clock' folder' (new # rest) k v = rename_loop clock' folder' rest k v"
    for clock' folder' rest k v
    using pm by simp
  show ?thesis
    using nr r t pm skip unfolding filename_def new_def by (simp add: renamed_event_def)
qed

theorem empty_title_rename_witness:
  "valid_date (clock0 (reads world2))
   \<and> fs world2 ''projects'' = Some (Directory [(''!!!.md'', 1)])
   \<and> (\<exists>w'. needs_rename (''!!!'' @ ''.md'')
           \<and> rename_loop clock0 ''projects'' [''!!!'' @ ''.md''] 1 world2 = (Returned, w')
           \<and> trace w' = trace world2 @ [Renamed ''projects'' (''!!!'' @ ''.md'')
                 (strftime (clock0 (reads world2)) @ ''-'' @ format_03d 1 @ ''-.md'')]
           \<and> pattern_match (strftime (clock0 (reads world2)) @ ''-'' @ format_03d 1 @ ''-.md'')
               = Some (format_03d 1)
           \<and> (\<forall>clock' folder' rest k v.
                 rename_loop clock' folder' ((strftime (clock0 (reads world2)) @ ''-'' @ format_03d 1 @ ''-.md'') # rest) k v
                   = rename_loop clock' folder' rest k v))"
proof -
  have v: "valid_date (clock0 (reads world2))" using clock0_valid by simp
  have k: "\<forall>c \<in> set (replace '' '' ''-'' (lower ''!!!'')). \<not> keep_char c"
    by (simp add: replace_single lower_def lower_char_def keep_char_def)
  have f: "fs world2 ''projects'' = Some (Directory [(''!!!.md'', 1)])" by (simp add: world2_def)
  have e: "''!!!'' @ ''.md'' \<in> fst ` set [(''!!!.md'', 1::nat)]" by simp
  show ?thesis
    using v f
      empty_title_rename [where clock = clock0 and w = world2 and stem = "''!!!''"
        and folder = "''projects''" and n = 1, OF v k f e]
    by blast
qed

lemma empty_title_example:
  "new_filename date0 1 ''!!!.md'' = ''2024-03-07-001-.md''
   \<and> new_filename date0 1 ''.md'' = ''2024-03-07-001-.md''"
  by code_simp

subsection \<open>main\<close>





section \<open>The scanner, the new names and the printed lines against the specification\<close>

subsection \<open>The pattern and the shape of the specification\<close>

lemma isdigit_iff: "isdigit c \<longleftrightarrow> decimal_digit c"
proof
  assume "decimal_digit c"
  then show "isdigit c" by (auto simp: decimal_digit_def isdigit_def)
next
  assume d: "isdigit c"
  have e: "c = x" if "(of_char c :: nat) = of_char x" for x
    using that by (simp add: of_char_eq_iff)
  define k where "k = (of_char c :: nat)"
  have "48 \<le> k \<and> k \<le> 57" using d unfolding isdigit_def k_def by simp
  then have "k = 48 \<or> k = 49 \<or> k = 50 \<or> k = 51 \<or> k = 52 \<or> k = 53 \<or> k = 54 \<or> k = 55
        \<or> k = 56 \<or> k = 57"
    by arith
  then have "(of_char c :: nat) \<in> {48, 49, 50, 51, 52, 53, 54, 55, 56, 57}"
    unfolding k_def by blast
  then have "c = CHR ''0'' \<or> c = CHR ''1'' \<or> c = CHR ''2'' \<or> c = CHR ''3'' \<or> c = CHR ''4''
      \<or> c = CHR ''5'' \<or> c = CHR ''6'' \<or> c = CHR ''7'' \<or> c = CHR ''8'' \<or> c = CHR ''9''"
    using e [of "CHR ''0''"] e [of "CHR ''1''"] e [of "CHR ''2''"] e [of "CHR ''3''"]
      e [of "CHR ''4''"] e [of "CHR ''5''"] e [of "CHR ''6''"] e [of "CHR ''7''"]
      e [of "CHR ''8''"] e [of "CHR ''9''"]
    by auto
  then show "decimal_digit c" unfolding decimal_digit_def by auto
qed

lemma list_all_isdigit_iff: "list_all isdigit s \<longleftrightarrow> list_all decimal_digit s"
  by (simp add: list_all_iff isdigit_iff)

lemma foldl_decimal:
  "foldl (\<lambda>a c. 10 * a + digit_val c) a s = a * 10 ^ length s + decimal_value s"
  by (induction s arbitrary: a) (simp_all add: digit_val_def algebra_simps)

lemma py_int_decimal_value: "py_int s = decimal_value s"
  by (simp add: py_int_def foldl_decimal)

lemma pattern_match_spec_shape:
  "pattern_match name = Some g \<longleftrightarrow>
     (\<exists>t. newline \<notin> set t
        \<and> (spec_shape name g t \<or> (\<exists>name'. name = name' @ [newline] \<and> spec_shape name' g t)))"
  unfolding pattern_match_iff spec_shape_def list_all_isdigit_iff
  by (auto; blast)


lemma embedded_id_spec_shape:
  "embedded_id name = Some i \<longleftrightarrow>
     (\<exists>g t. newline \<notin> set t \<and> decimal_value g = i
        \<and> (spec_shape name g t \<or> (\<exists>name'. name = name' @ [newline] \<and> spec_shape name' g t)))"
proof -
  have "embedded_id name = Some i \<longleftrightarrow> (\<exists>g. pattern_match name = Some g \<and> decimal_value g = i)"
    by (auto simp: embedded_id_def py_int_decimal_value)
  then show ?thesis unfolding pattern_match_spec_shape by blast
qed

lemma get_next_id_scan:
  "fs w path \<noteq> Some RegularFile \<Longrightarrow>
   get_next_id w path = Inr (scan_ids (names_in w path) 0 + 1)"
  by (auto simp: get_next_id_def os_path_exists_def os_listdir_def names_in_def
      split: option.split node.split)

text \<open>
  Claim C2, as the code has it. For a folder path that is a directory or does not exist,
  the scanner returns the smallest positive integer that is greater than every ID embedded
  in a name of the folder that counts: a name of the shape \<^verbatim>\<open>YYYY-MM-DD-ID-title.md\<close> whose
  title has no line break, or such a name followed by one line break. It returns 1 when
  the folder does not exist or no name counts. Every other name is ignored, and no name
  makes the scanner fail.
\<close>

theorem get_next_id_least_shape:
  assumes "fs w path \<noteq> Some RegularFile"
  shows "\<exists>n. get_next_id w path = Inr n \<and> 0 < n
           \<and> (\<forall>name g t.
                 (name \<in> set (names_in w path) \<or> name @ [newline] \<in> set (names_in w path))
                 \<and> spec_shape name g t \<and> newline \<notin> set t
                 \<longrightarrow> decimal_value g < n)
           \<and> (n = 1
                \<or> (\<exists>name g t.
                      (name \<in> set (names_in w path) \<or> name @ [newline] \<in> set (names_in w path))
                      \<and> spec_shape name g t \<and> newline \<notin> set t \<and> n = decimal_value g + 1))
           \<and> (\<forall>m. 0 < m
                  \<and> (\<forall>name g t.
                        (name \<in> set (names_in w path) \<or> name @ [newline] \<in> set (names_in w path))
                        \<and> spec_shape name g t \<and> newline \<notin> set t
                        \<longrightarrow> decimal_value g < m)
                \<longrightarrow> n \<le> m)
           \<and> (fs w path = None \<longrightarrow> n = 1)"
proof -
  define names where "names = names_in w path"
  define n where "n = scan_ids names 0 + 1"
  have r: "get_next_id w path = Inr n"
    unfolding n_def names_def by (rule get_next_id_scan [OF assms])
  have pos: "0 < n" by (simp add: n_def)
  have above: "decimal_value g < n"
    if "name \<in> set names \<or> name @ [newline] \<in> set names" "spec_shape name g t"
      "newline \<notin> set t" for name g t
  proof -
    from that(1) obtain x where x: "x \<in> set names" "x = name \<or> x = name @ [newline]" by blast
    have "embedded_id x = Some (decimal_value g)"
      unfolding embedded_id_spec_shape using x(2) that(2,3) by blast
    from scan_ids_upper [OF x(1) this, of 0] show ?thesis by (simp add: n_def)
  qed
  have attained: "n = 1
      \<or> (\<exists>name g t. (name \<in> set names \<or> name @ [newline] \<in> set names)
            \<and> spec_shape name g t \<and> newline \<notin> set t \<and> n = decimal_value g + 1)"
  proof -
    from scan_ids_attained [of names 0]
    show ?thesis
    proof
      assume "scan_ids names 0 = 0"
      then show ?thesis by (simp add: n_def)
    next
      assume "\<exists>x \<in> set names. embedded_id x = Some (scan_ids names 0)"
      then obtain x where x: "x \<in> set names" "embedded_id x = Some (scan_ids names 0)" by blast
      from x(2) obtain g t where t: "newline \<notin> set t" and v: "decimal_value g = scan_ids names 0"
        and sh: "spec_shape x g t \<or> (\<exists>name'. x = name' @ [newline] \<and> spec_shape name' g t)"
        unfolding embedded_id_spec_shape by blast
      from sh obtain name where "name \<in> set names \<or> name @ [newline] \<in> set names"
        "spec_shape name g t"
        using x(1) by blast
      then show ?thesis using t v by (intro disjI2 exI [of _ name] exI [of _ g] exI [of _ t]) (simp add: n_def)
    qed
  qed
  have least: "n \<le> m"
    if m: "0 < m" "\<forall>name g t. (name \<in> set names \<or> name @ [newline] \<in> set names)
              \<and> spec_shape name g t \<and> newline \<notin> set t \<longrightarrow> decimal_value g < m" for m
  proof -
    from attained show ?thesis
    proof
      assume "n = 1"
      then show ?thesis using m(1) by simp
    next
      assume "\<exists>name g t. (name \<in> set names \<or> name @ [newline] \<in> set names)
            \<and> spec_shape name g t \<and> newline \<notin> set t \<and> n = decimal_value g + 1"
      then obtain name g t where "name \<in> set names \<or> name @ [newline] \<in> set names"
        "spec_shape name g t" "newline \<notin> set t" "n = decimal_value g + 1"
        by blast
      then show ?thesis using m(2) by fastforce
    qed
  qed
  have absent: "n = 1" if "fs w path = None"
    using that by (simp add: n_def names_def names_in_def)
  show ?thesis
    unfolding names_def [symmetric]
    using r pos above attained least absent by (intro exI [of _ n] conjI allI impI) blast+
qed

theorem get_next_id_least_shape_witness:
  "fs world0 ''projects'' \<noteq> Some RegularFile
   \<and> (\<exists>n. get_next_id world0 ''projects'' = Inr n \<and> 0 < n
           \<and> (\<forall>name g t.
                 (name \<in> set (names_in world0 ''projects'')
                  \<or> name @ [newline] \<in> set (names_in world0 ''projects''))
                 \<and> spec_shape name g t \<and> newline \<notin> set t
                 \<longrightarrow> decimal_value g < n)
           \<and> (n = 1
                \<or> (\<exists>name g t.
                      (name \<in> set (names_in world0 ''projects'')
                       \<or> name @ [newline] \<in> set (names_in world0 ''projects''))
                      \<and> spec_shape name g t \<and> newline \<notin> set t \<and> n = decimal_value g + 1))
           \<and> (\<forall>m. 0 < m
                  \<and> (\<forall>name g t.
                        (name \<in> set (names_in world0 ''projects'')
                         \<or> name @ [newline] \<in> set (names_in world0 ''projects''))
                        \<and> spec_shape name g t \<and> newline \<notin> set t
                        \<longrightarrow> decimal_value g < m)
                \<longrightarrow> n \<le> m)
           \<and> (fs world0 ''projects'' = None \<longrightarrow> n = 1))"
proof -
  have h: "fs world0 ''projects'' \<noteq> Some RegularFile" by (simp add: world0_def)
  show ?thesis using h get_next_id_least_shape [OF h] by blast
qed

lemma scenario_A_next_id: "get_next_id world0 ''projects'' = Inr 6"
  by code_simp

text \<open>
  Claim C2, as stated, counts every name of the shape \<^verbatim>\<open>YYYY-MM-DD-ID-title.md\<close> and no
  other. A name of this shape with a line break in its title, and the ID 9, is not
  counted: the scanner returns 1. A name that does not end in \<^verbatim>\<open>.md\<close>, because a line
  break follows the suffix, is counted: the scanner returns 10.
\<close>

theorem get_next_id_line_breaks:
  "names_in world3 ''projects'' = [inner_break_name]
   \<and> spec_shape inner_break_name ''009'' (''a'' @ [newline] @ ''b'')
   \<and> decimal_value ''009'' = 9
   \<and> get_next_id world3 ''projects'' = Inr 1
   \<and> names_in world3 ''templates'' = [final_break_name]
   \<and> \<not> suffix ''.md'' final_break_name
   \<and> get_next_id world3 ''templates'' = Inr 10"
proof -
  have "spec_shape inner_break_name ''009'' (''a'' @ [newline] @ ''b'')"
    unfolding spec_shape_def inner_break_name_def
    by (intro exI [of _ "''2024''"] exI [of _ "''01''"]) (simp add: decimal_digit_def)
  moreover have "names_in world3 ''projects'' = [inner_break_name]"
    "names_in world3 ''templates'' = [final_break_name]"
    by (simp_all add: names_in_def world3_def)
  moreover have "decimal_value ''009'' = 9" by simp
  moreover have "get_next_id world3 ''projects'' = Inr 1" by code_simp
  moreover have "get_next_id world3 ''templates'' = Inr 10" by code_simp
  moreover have "\<not> suffix ''.md'' final_break_name" by code_simp
  ultimately show ?thesis by blast
qed


subsection \<open>The files that a run renames\<close>

lemma needs_rename_spec_shape:
  "needs_rename name \<longleftrightarrow>
     suffix ''.md'' name \<and> \<not> (\<exists>g t. spec_shape name g t \<and> newline \<notin> set t)"
proof (cases "suffix ''.md'' name")
  case False
  then show ?thesis by (simp add: needs_rename_def endswith_def)
next
  case True
  have no_break: "name \<noteq> name' @ [newline]" for name'
  proof
    assume "name = name' @ [newline]"
    then have "suffix ''.md'' (name' @ [newline])" using True by simp
    then show False by (auto simp: suffix_def newline_def append_eq_append_conv2 Cons_eq_append_conv)
  qed
  have "pattern_match name = None \<longleftrightarrow> \<not> (\<exists>g. pattern_match name = Some g)" by auto
  also have "\<dots> \<longleftrightarrow> \<not> (\<exists>g t. spec_shape name g t \<and> newline \<notin> set t)"
    unfolding pattern_match_spec_shape using no_break by blast
  finally show ?thesis using True by (simp add: needs_rename_def endswith_def)
qed

lemma spec_shape_new_filename:
  assumes "valid_date d"
  shows "spec_shape (new_filename d n f) (format_03d n) (clean_title f)
         \<and> newline \<notin> set (clean_title f)"
proof -
  obtain y m dd where s: "strftime d = y @ CHR ''-'' # m @ CHR ''-'' # dd"
    and sh: "length y = 4" "list_all isdigit y" "length m = 2" "list_all isdigit m"
      "length dd = 2" "list_all isdigit dd"
    using strftime_shape [OF assms] by blast
  have "newline \<notin> set (clean_title f)"
    using clean_title_keep [of f] keep_not_newline by (auto simp: list_all_iff)
  moreover have "spec_shape (new_filename d n f) (format_03d n) (clean_title f)"
    unfolding spec_shape_def new_filename_def s
    using sh format_03d_nonempty [of n] format_03d_digits [of n]
    by (intro exI [of _ y] exI [of _ m] exI [of _ dd]) (simp add: list_all_isdigit_iff)
  ultimately show ?thesis by blast
qed

text \<open>
  Claim C3. A run of the normalizer renames exactly the entries whose name ends in
  \<^verbatim>\<open>.md\<close> and is not conforming, in the order of the listing. The new name of each is the
  date, the running counter padded with zeros on the left to three digits (not cut when
  it has more), and the title, joined by hyphens and followed by \<^verbatim>\<open>.md\<close>; it has the
  conforming shape \<^verbatim>\<open>YYYY-MM-DD-ID-title.md\<close>, with the counter as its ID and a title
  without line break, and the program's pattern accepts it.
\<close>

theorem process_folder_new_names_shape:
  assumes "fs w folder = Some (Directory entries)" "distinct (map fst entries)"
    "\<forall>i. valid_date (clock i)"
  shows "\<exists>next_id w' pl.
           get_next_id w folder = Inr next_id
           \<and> process_folder clock folder w = (Returned, w')
           \<and> trace w' = trace w @ Scanned folder # map (renamed_event folder) pl
           \<and> map fst pl
               = filter (\<lambda>name. suffix ''.md'' name
                                  \<and> \<not> (\<exists>g t. spec_shape name g t \<and> newline \<notin> set t))
                   (map fst entries)
           \<and> (\<forall>i. i < length pl \<longrightarrow>
                 snd (pl ! i) = strftime (clock (reads w + i)) @ ''-'' @ format_03d (next_id + i)
                                  @ ''-'' @ clean_title (fst (pl ! i)) @ ''.md''
                 \<and> format_03d (next_id + i)
                     = replicate (3 - length (str_nat (next_id + i))) (CHR ''0'') @ str_nat (next_id + i)
                 \<and> length (format_03d (next_id + i)) = max 3 (length (str_nat (next_id + i)))
                 \<and> decimal_value (str_nat (next_id + i)) = next_id + i
                 \<and> spec_shape (snd (pl ! i)) (format_03d (next_id + i)) (clean_title (fst (pl ! i)))
                 \<and> newline \<notin> set (clean_title (fst (pl ! i)))
                 \<and> decimal_value (format_03d (next_id + i)) = next_id + i
                 \<and> pattern_match (snd (pl ! i)) = Some (format_03d (next_id + i))
                 \<and> embedded_id (snd (pl ! i)) = Some (next_id + i))"
proof -
  from assms obtain next_id pl w' where g: "get_next_id w folder = Inr next_id"
    and r: "process_folder clock folder w = (Returned, w')"
    and t: "trace w' = trace w @ Scanned folder # map (renamed_event folder) pl"
    and pl: "pl = renames clock (reads w) (map fst entries) next_id"
    and src: "map fst pl = filter needs_rename (map fst entries)"
    by (rule process_folder_run)
  have flt: "filter needs_rename (map fst entries)
      = filter (\<lambda>name. suffix ''.md'' name
                         \<and> \<not> (\<exists>g t. spec_shape name g t \<and> newline \<notin> set t))
          (map fst entries)"
    by (rule filter_cong) (simp_all add: needs_rename_spec_shape)
  have each: "snd (pl ! i) = strftime (clock (reads w + i)) @ ''-'' @ format_03d (next_id + i)
                                  @ ''-'' @ clean_title (fst (pl ! i)) @ ''.md''
              \<and> format_03d (next_id + i)
                     = replicate (3 - length (str_nat (next_id + i))) (CHR ''0'') @ str_nat (next_id + i)
              \<and> length (format_03d (next_id + i)) = max 3 (length (str_nat (next_id + i)))
              \<and> decimal_value (str_nat (next_id + i)) = next_id + i
              \<and> spec_shape (snd (pl ! i)) (format_03d (next_id + i)) (clean_title (fst (pl ! i)))
              \<and> newline \<notin> set (clean_title (fst (pl ! i)))
              \<and> decimal_value (format_03d (next_id + i)) = next_id + i
              \<and> pattern_match (snd (pl ! i)) = Some (format_03d (next_id + i))
              \<and> embedded_id (snd (pl ! i)) = Some (next_id + i)"
    if i: "i < length pl" for i
  proof -
    have "length pl = length (filter needs_rename (map fst entries))"
      using src by (metis length_map)
    then have "i < length (filter needs_rename (map fst entries))" using i by simp
    from renames_nth [OF this, of clock "reads w" next_id]
    have e: "pl ! i = (filter needs_rename (map fst entries) ! i,
                new_filename (clock (reads w + i)) (next_id + i) (filter needs_rename (map fst entries) ! i))"
      unfolding pl .
    then have s: "snd (pl ! i) = new_filename (clock (reads w + i)) (next_id + i) (fst (pl ! i))"
      by simp
    have v: "valid_date (clock (reads w + i))" using assms(3) by simp
    have dv: "decimal_value (str_nat k) = k" "decimal_value (format_03d k) = k" for k
      using py_int_str_nat [of k] py_int_format_03d [of k] by (simp_all add: py_int_decimal_value)
    show ?thesis
      unfolding s
      using pattern_match_new_filename [OF v] embedded_id_new_filename [OF v]
        spec_shape_new_filename [OF v] dv
      by (simp add: new_filename_def format_03d_def zfill_def)
  qed
  show ?thesis using g r t src [unfolded flt] each by blast
qed

theorem process_folder_new_names_shape_witness:
  "fs world0 ''projects'' = Some (Directory entries0) \<and> distinct (map fst entries0)
   \<and> (\<exists>next_id w' pl.
           get_next_id world0 ''projects'' = Inr next_id
           \<and> process_folder clock0 ''projects'' world0 = (Returned, w')
           \<and> trace w' = trace world0 @ Scanned ''projects'' # map (renamed_event ''projects'') pl
           \<and> map fst pl
               = filter (\<lambda>name. suffix ''.md'' name
                                  \<and> \<not> (\<exists>g t. spec_shape name g t \<and> newline \<notin> set t))
                   (map fst entries0)
           \<and> (\<forall>i. i < length pl \<longrightarrow>
                 snd (pl ! i) = strftime (clock0 (reads world0 + i)) @ ''-'' @ format_03d (next_id + i)
                                  @ ''-'' @ clean_title (fst (pl ! i)) @ ''.md''
                 \<and> format_03d (next_id + i)
                     = replicate (3 - length (str_nat (next_id + i))) (CHR ''0'') @ str_nat (next_id + i)
                 \<and> length (format_03d (next_id + i)) = max 3 (length (str_nat (next_id + i)))
                 \<and> decimal_value (str_nat (next_id + i)) = next_id + i
                 \<and> spec_shape (snd (pl ! i)) (format_03d (next_id + i)) (clean_title (fst (pl ! i)))
                 \<and> newline \<notin> set (clean_title (fst (pl ! i)))
                 \<and> decimal_value (format_03d (next_id + i)) = next_id + i
                 \<and> pattern_match (snd (pl ! i)) = Some (format_03d (next_id + i))
                 \<and> embedded_id (snd (pl ! i)) = Some (next_id + i)))"
  using world0_dir entries0_distinct
    process_folder_new_names_shape [OF world0_dir entries0_distinct clock0_valid]
  by blast

lemma scenario_A_renames:
  "trace (snd (process_folder clock0 ''projects'' world0))
     = [Scanned ''projects'',
        Renamed ''projects'' ''My Notes.md'' ''2024-03-07-006-my-notes.md'',
        Renamed ''projects'' ''B!! .md'' ''2024-03-07-007-b-.md'']"
  by code_simp


subsection \<open>The lines of a run\<close>










lemma stdout_world0:
  "stdout (snd (main clock0 world0)) =
     [''Scanning projects...'',
      ''Renaming My Notes.md -> 2024-03-07-006-my-notes.md'',
      ''Renaming B!! .md -> 2024-03-07-007-b-.md'',
      ''Scanning templates...'']"
  by code_simp


end
